theory Spec2Isabelle
  imports Main "HOL-Library.Word"
begin

unbundle bit_operations_syntax

section \<open>The viewer's display catalog (vncviewer/display.cpp)\<close>

text \<open>
  \<^verbatim>\<open>tempdisplayclass\<close> keeps an array \<^verbatim>\<open>monarray\<close> of monitor entries and the
  counter \<^verbatim>\<open>nr_monitors\<close>. Slot 0 is the synthetic entry for the whole virtual screen,
  slot 1 the primary adapter, slots 2.. the other adapters in enumeration order.

  The header display.h is not part of the sources at hand, so the element type and the
  capacity of \<^verbatim>\<open>monarray\<close> are taken as follows: the fields are the ones display.cpp
  assigns, all C \<^verbatim>\<open>int\<close>s (they are printed with \<^verbatim>\<open>%d\<close>) and therefore 32-bit
  words here; the capacity is the length of the list that models the array, and an
  access outside it is the error \<open>OutOfBounds\<close>. The label \<^verbatim>\<open>buttontext\<close>, which
  is formatted from the same values and read nowhere in display.cpp, is left out.
\<close>

type_synonym HMONITOR = nat  \<comment> \<open>a handle; 0 is NULL\<close>
type_synonym HWND = nat

record DEVMODE =
  dmPelsWidth :: "32 word"
  dmPelsHeight :: "32 word"
  dmBitsPerPel :: "32 word"
  dmDisplayFrequency :: "32 word"
  dmPosition_x :: "32 word"
  dmPosition_y :: "32 word"

record RECT =
  left :: "32 word"
  top' :: "32 word"
  right :: "32 word"
  bottom :: "32 word"

record DISPLAY_DEVICE =
  DeviceName :: string
  StateFlags :: "32 word"

record monitor =
  width :: "32 word"
  height :: "32 word"
  depth :: "32 word"
  offsetx :: "32 word"
  offsety :: "32 word"
  freq :: "32 word"
  devicename :: string
  wl :: "32 word"
  wt :: "32 word"
  wr :: "32 word"
  wb :: "32 word"
  hm :: HMONITOR

record tempdisplayclass =
  nr_monitors :: int
  monarray :: "monitor list"

datatype error = OutOfBounds

text \<open>
  The operating system, as far as \<^verbatim>\<open>checkmonitors\<close> and \<^verbatim>\<open>getSelectedScreen\<close>
  ask it. \<open>EnumDisplayDevices\<close> is the sequence of adapters that
  \<^verbatim>\<open>EnumDisplayDevices(0, dev, &dd, 0)\<close> yields for dev = 0, 1, 2, ... until it returns
  FALSE. \<open>EnumDisplaySettingsEx\<close> takes the device name and whether the registry
  settings are asked for; \<open>None\<close> is the return value FALSE. \<open>MonitorFromPoint\<close> is
  called with \<^verbatim>\<open>MONITOR_DEFAULTTONULL\<close>, \<open>MonitorFromWindow\<close> with
  \<^verbatim>\<open>MONITOR_DEFAULTTONEAREST\<close>. \<open>GetMonitorInfo\<close> gives \<^verbatim>\<open>rcWork\<close>.
\<close>

record OS =
  EnumDisplayDevices :: "DISPLAY_DEVICE list"
  EnumDisplaySettingsEx :: "string \<Rightarrow> bool \<Rightarrow> DEVMODE option"
  MonitorFromPoint :: "32 word \<times> 32 word \<Rightarrow> HMONITOR"
  GetMonitorInfo :: "HMONITOR \<Rightarrow> RECT option"
  MonitorFromWindow :: "HWND \<Rightarrow> HMONITOR"
  SM_CXVIRTUALSCREEN :: "32 word"
  SM_CYVIRTUALSCREEN :: "32 word"
  SM_XVIRTUALSCREEN :: "32 word"
  SM_YVIRTUALSCREEN :: "32 word"
  SPI_GETWORKAREA :: "RECT option"

definition DISPLAY_DEVICE_ATTACHED_TO_DESKTOP :: "32 word" where
  "DISPLAY_DEVICE_ATTACHED_TO_DESKTOP = 0x1"

definition DISPLAY_DEVICE_PRIMARY_DEVICE :: "32 word" where
  "DISPLAY_DEVICE_PRIMARY_DEVICE = 0x4"

definition DISPLAY_DEVICE_MIRRORING_DRIVER :: "32 word" where
  "DISPLAY_DEVICE_MIRRORING_DRIVER = 0x8"

definition zero_DEVMODE :: DEVMODE where
  "zero_DEVMODE = \<lparr>dmPelsWidth = 0, dmPelsHeight = 0, dmBitsPerPel = 0,
     dmDisplayFrequency = 0, dmPosition_x = 0, dmPosition_y = 0\<rparr>"

definition zero_RECT :: RECT where
  "zero_RECT = \<lparr>left = 0, top' = 0, right = 0, bottom = 0\<rparr>"

text \<open>
  Lines 72-77: \<^verbatim>\<open>dm\<close> is zeroed, then filled from the current settings, and from the
  registry settings when the first call returns FALSE.
\<close>

definition current_mode :: "OS \<Rightarrow> DISPLAY_DEVICE \<Rightarrow> DEVMODE" where
  "current_mode os dd =
     (case EnumDisplaySettingsEx os (DeviceName dd) False of
        Some dm \<Rightarrow> dm
      | None \<Rightarrow> (case EnumDisplaySettingsEx os (DeviceName dd) True of
                   Some dm \<Rightarrow> dm
                 | None \<Rightarrow> zero_DEVMODE))"

text \<open>Lines 81-92: the monitor handle at the adapter's position, and its work area.\<close>

definition monitor_handle :: "OS \<Rightarrow> DISPLAY_DEVICE \<Rightarrow> HMONITOR" where
  "monitor_handle os dd =
     (let dm = current_mode os dd in
      if StateFlags dd AND DISPLAY_DEVICE_ATTACHED_TO_DESKTOP \<noteq> 0
      then MonitorFromPoint os (dmPosition_x dm, dmPosition_y dm)
      else 0)"

definition monitor_work :: "OS \<Rightarrow> HMONITOR \<Rightarrow> RECT" where
  "monitor_work os hmon =
     (if hmon \<noteq> 0 then (case GetMonitorInfo os hmon of Some r \<Rightarrow> r | None \<Rightarrow> zero_RECT)
      else zero_RECT)"

text \<open>Lines 96-109 and 114-127: the thirteen assignments to one slot, without the label.\<close>

definition entry_of :: "OS \<Rightarrow> DISPLAY_DEVICE \<Rightarrow> monitor" where
  "entry_of os dd =
     (let dm = current_mode os dd; hmon = monitor_handle os dd; mi = monitor_work os hmon in
      \<lparr>width = dmPelsWidth dm, height = dmPelsHeight dm, depth = dmBitsPerPel dm,
       offsetx = dmPosition_x dm, offsety = dmPosition_y dm,
       freq = dmDisplayFrequency dm, devicename = DeviceName dd,
       wl = left mi, wt = top' mi, wr = right mi, wb = bottom mi, hm = hmon\<rparr>)"

definition store_monitor :: "int \<Rightarrow> monitor \<Rightarrow> tempdisplayclass \<Rightarrow> error + tempdisplayclass" where
  "store_monitor i m st =
     (if 0 \<le> i \<and> nat i < length (monarray st)
      then Inr (st\<lparr>monarray := (monarray st)[nat i := m]\<rparr>)
      else Inl OutOfBounds)"

text \<open>
  The \<^verbatim>\<open>while\<close> loop of lines 39-134, over the adapters still to come;
  \<open>id0\<close> is the source's \<^verbatim>\<open>id\<close>, the next free slot. The inner loop of lines
  56-69 only fills the local \<^verbatim>\<open>ddMon\<close>, which is not read afterwards, and has no
  counterpart here.
\<close>

fun enum_loop :: "OS \<Rightarrow> DISPLAY_DEVICE list \<Rightarrow> int \<Rightarrow> tempdisplayclass \<Rightarrow>
    error + (int \<times> tempdisplayclass)" where
  "enum_loop os [] id0 st = Inr (id0, st)"
| "enum_loop os (dd # rest) id0 st =
     (if \<not> (StateFlags dd AND DISPLAY_DEVICE_MIRRORING_DRIVER \<noteq> 0) then
        if StateFlags dd AND DISPLAY_DEVICE_ATTACHED_TO_DESKTOP \<noteq> 0 then
          if monitor_handle os dd \<noteq> 0 then
            if StateFlags dd AND DISPLAY_DEVICE_ATTACHED_TO_DESKTOP \<noteq> 0 \<and>
               StateFlags dd AND DISPLAY_DEVICE_PRIMARY_DEVICE \<noteq> 0
            then (case store_monitor 1 (entry_of os dd) st of
                    Inl e \<Rightarrow> Inl e
                  | Inr st' \<Rightarrow> enum_loop os rest id0 st')
            else (case store_monitor id0 (entry_of os dd) st of
                    Inl e \<Rightarrow> Inl e
                  | Inr st' \<Rightarrow> enum_loop os rest (id0 + 1) (st'\<lparr>nr_monitors := id0\<rparr>))
          else enum_loop os rest id0 st
        else enum_loop os rest id0 st
      else enum_loop os rest id0 st)"

text \<open>
  Lines 137-163: the entry for all displays. \<^verbatim>\<open>workrect\<close> starts as \<open>{0,0,0,0}\<close> and is
  filled by \<^verbatim>\<open>SystemParametersInfo\<close>. Comparisons with 0 are signed (\<open>sint\<close>); sums and
  differences are those of 32-bit two's complement. Line 155 assigns \<^verbatim>\<open>offsetx\<close> to
  \<^verbatim>\<open>workrect.top\<close>, and so does the definition. Slot 0 keeps the \<open>freq\<close> and \<open>hm\<close>
  it had.
\<close>

definition all_displays :: "OS \<Rightarrow> monitor \<Rightarrow> monitor \<Rightarrow> monitor" where
  "all_displays os m0 m1 =
     (let cx = SM_CXVIRTUALSCREEN os; cy = SM_CYVIRTUALSCREEN os;
          ox = SM_XVIRTUALSCREEN os; oy = SM_YVIRTUALSCREEN os;
          workrect = (case SPI_GETWORKAREA os of Some r \<Rightarrow> r | None \<Rightarrow> zero_RECT);
          wleft = (if sint ox < 0 then ox else left workrect);
          wtop = (if sint oy < 0 then ox else top' workrect);
          wright = wleft + cx - (width m1 - (wr m1 - wl m1));
          wbottom = wtop + cy - (height m1 - (wb m1 - wt m1))
      in m0\<lparr>width := cx, height := cy, depth := depth m1, offsetx := ox, offsety := oy,
            devicename := ''All displays'',
            wl := wleft, wt := wtop, wr := wright, wb := wbottom\<rparr>)"

definition checkmonitors :: "OS \<Rightarrow> tempdisplayclass \<Rightarrow> error + tempdisplayclass" where
  "checkmonitors os st =
     (case enum_loop os (EnumDisplayDevices os) 2 (st\<lparr>nr_monitors := 1\<rparr>) of
        Inl e \<Rightarrow> Inl e
      | Inr (id0, st') \<Rightarrow>
          (if 2 \<le> length (monarray st')
           then Inr (st'\<lparr>monarray :=
                  (monarray st')[0 := all_displays os (monarray st' ! 0) (monarray st' ! 1)]\<rparr>)
           else Inl OutOfBounds))"

text \<open>
  Lines 186-196. The \<^verbatim>\<open>for\<close> loop runs i from 0 to \<^verbatim>\<open>nr_monitors\<close> inclusive and
  returns at the first slot whose handle is the one asked for.
\<close>

function scan_monitors :: "tempdisplayclass \<Rightarrow> HMONITOR \<Rightarrow> int \<Rightarrow> error + int" where
  "scan_monitors st hmon i =
     (if i \<le> nr_monitors st
      then (if 0 \<le> i \<and> nat i < length (monarray st)
            then (if hm (monarray st ! nat i) = hmon then Inr i
                  else scan_monitors st hmon (i + 1))
            else Inl OutOfBounds)
      else Inr 0)"
  by pat_completeness auto
termination
  by (relation "measure (\<lambda>(st, hmon, i). nat (nr_monitors st + 1 - i))") auto

declare scan_monitors.simps [simp del]

definition getSelectedScreen :: "OS \<Rightarrow> tempdisplayclass \<Rightarrow> HWND \<Rightarrow> bool \<Rightarrow> error + int" where
  "getSelectedScreen os st hwnd allowMonitorSpanning =
     (if allowMonitorSpanning then Inr 0
      else scan_monitors st (MonitorFromWindow os hwnd) 0)"

text \<open>
  What holds of every object after a \<^verbatim>\<open>checkmonitors\<close> that stayed inside the array
  (the constructor calls it through \<^verbatim>\<open>Init\<close>): the counter is at least 1 and is a
  valid slot.
\<close>

definition catalog_ok :: "tempdisplayclass \<Rightarrow> bool" where
  "catalog_ok st \<longleftrightarrow> 1 \<le> nr_monitors st \<and> nat (nr_monitors st) < length (monarray st)"

text \<open>
  The guard of the loop body (lines 41, 42 and 93) and the test of line 95, named for
  the statements below; \<open>others\<close> and \<open>primaries\<close> are the adapters that pass the
  guard, in enumeration order, without and with the primary flag.
\<close>

definition listed :: "OS \<Rightarrow> DISPLAY_DEVICE \<Rightarrow> bool" where
  "listed os dd \<longleftrightarrow>
     StateFlags dd AND DISPLAY_DEVICE_MIRRORING_DRIVER = 0 \<and>
     StateFlags dd AND DISPLAY_DEVICE_ATTACHED_TO_DESKTOP \<noteq> 0 \<and>
     monitor_handle os dd \<noteq> 0"

definition is_primary :: "DISPLAY_DEVICE \<Rightarrow> bool" where
  "is_primary dd \<longleftrightarrow> StateFlags dd AND DISPLAY_DEVICE_PRIMARY_DEVICE \<noteq> 0"

definition others :: "OS \<Rightarrow> DISPLAY_DEVICE list \<Rightarrow> DISPLAY_DEVICE list" where
  "others os ds = filter (\<lambda>dd. listed os dd \<and> \<not> is_primary dd) ds"

definition primaries :: "OS \<Rightarrow> DISPLAY_DEVICE list \<Rightarrow> DISPLAY_DEVICE list" where
  "primaries os ds = filter (\<lambda>dd. listed os dd \<and> is_primary dd) ds"

subsection \<open>A desktop with two monitors\<close>

text \<open>
  The primary monitor, 1920 x 1080 at the origin with a task bar of 40 lines, and a second
  monitor of the same size up and to the left of it, at (-1920, -1080). The enumeration
  also yields a mirroring driver and an adapter that is not attached. The current
  settings of the second adapter cannot be read, its registry settings can. The array has
  four slots, all zero before the first refresh. (Device names are written without the
  leading backslashes and dot of the real ones.)
\<close>

definition zero_monitor :: monitor where
  "zero_monitor = \<lparr>width = 0, height = 0, depth = 0, offsetx = 0, offsety = 0, freq = 0,
     devicename = [], wl = 0, wt = 0, wr = 0, wb = 0, hm = 0\<rparr>"

definition ex_st :: tempdisplayclass where
  "ex_st = \<lparr>nr_monitors = 0,
     monarray = [zero_monitor, zero_monitor, zero_monitor, zero_monitor]\<rparr>"

definition ex_dd1 :: DISPLAY_DEVICE where
  "ex_dd1 = \<lparr>DeviceName = ''DISPLAY1'', StateFlags = 0x5\<rparr>"

definition ex_dd2 :: DISPLAY_DEVICE where
  "ex_dd2 = \<lparr>DeviceName = ''DISPLAY2'', StateFlags = 0x1\<rparr>"

definition ex_dd3 :: DISPLAY_DEVICE where
  "ex_dd3 = \<lparr>DeviceName = ''DISPLAYV1'', StateFlags = 0x9\<rparr>"

definition ex_dd4 :: DISPLAY_DEVICE where
  "ex_dd4 = \<lparr>DeviceName = ''DISPLAY3'', StateFlags = 0x0\<rparr>"

definition ex_os :: OS where
  "ex_os = \<lparr>
     EnumDisplayDevices = [ex_dd3, ex_dd2, ex_dd4, ex_dd1],
     EnumDisplaySettingsEx = (\<lambda>name registry.
        if name = ''DISPLAY1''
        then Some \<lparr>dmPelsWidth = 1920, dmPelsHeight = 1080, dmBitsPerPel = 32,
               dmDisplayFrequency = 60, dmPosition_x = 0, dmPosition_y = 0\<rparr>
        else if name = ''DISPLAY2'' \<and> registry
        then Some \<lparr>dmPelsWidth = 1920, dmPelsHeight = 1080, dmBitsPerPel = 32,
               dmDisplayFrequency = 60, dmPosition_x = - 1920, dmPosition_y = - 1080\<rparr>
        else None),
     MonitorFromPoint = (\<lambda>p. if p = (0, 0) then 65537
        else if p = (- 1920, - 1080) then 65539 else 0),
     GetMonitorInfo = (\<lambda>hmon.
        if hmon = 65537 then Some \<lparr>left = 0, top' = 0, right = 1920, bottom = 1040\<rparr>
        else if hmon = 65539 then Some \<lparr>left = - 1920, top' = - 1080, right = 0, bottom = 0\<rparr>
        else None),
     MonitorFromWindow = (\<lambda>hwnd. if hwnd = 7 then 65539 else if hwnd = 8 then 65541 else 65537),
     SM_CXVIRTUALSCREEN = 3840, SM_CYVIRTUALSCREEN = 2160,
     SM_XVIRTUALSCREEN = - 1920, SM_YVIRTUALSCREEN = - 1080,
     SPI_GETWORKAREA = Some \<lparr>left = 0, top' = 0, right = 1920, bottom = 1040\<rparr>\<rparr>"

definition ex_result :: tempdisplayclass where
  "ex_result = \<lparr>nr_monitors = 2,
     monarray =
       [\<lparr>width = 3840, height = 2160, depth = 32, offsetx = - 1920, offsety = - 1080,
         freq = 0, devicename = ''All displays'',
         wl = - 1920, wt = - 1920, wr = 1920, wb = 200, hm = 0\<rparr>,
        \<lparr>width = 1920, height = 1080, depth = 32, offsetx = 0, offsety = 0,
         freq = 60, devicename = ''DISPLAY1'',
         wl = 0, wt = 0, wr = 1920, wb = 1040, hm = 65537\<rparr>,
        \<lparr>width = 1920, height = 1080, depth = 32, offsetx = - 1920, offsety = - 1080,
         freq = 60, devicename = ''DISPLAY2'',
         wl = - 1920, wt = - 1080, wr = 0, wb = 0, hm = 65539\<rparr>,
        zero_monitor]\<rparr>"

text \<open>
  The same desktop at a moment when no monitor is found at the position of the second
  adapter, and what the refresh leaves then.
\<close>

definition ce_os :: OS where
  "ce_os = ex_os\<lparr>MonitorFromPoint := (\<lambda>p. if p = (0, 0) then 65537 else 0)\<rparr>"

definition ce_result :: tempdisplayclass where
  "ce_result = \<lparr>nr_monitors = 1,
     monarray =
       [\<lparr>width = 3840, height = 2160, depth = 32, offsetx = - 1920, offsety = - 1080,
         freq = 0, devicename = ''All displays'',
         wl = - 1920, wt = - 1920, wr = 1920, wb = 200, hm = 0\<rparr>,
        \<lparr>width = 1920, height = 1080, depth = 32, offsetx = 0, offsety = 0,
         freq = 60, devicename = ''DISPLAY1'',
         wl = 0, wt = 0, wr = 1920, wb = 1040, hm = 65537\<rparr>,
        zero_monitor, zero_monitor]\<rparr>"

section \<open>The host's virtual displays (winvnc/VirtualDisplay.h)\<close>

text \<open>
  VirtualDisplay.h declares the data and the member functions of \<^verbatim>\<open>VirtualDisplay\<close>;
  the file with their bodies, VirtualDisplay.cpp, is not among the sources. The types
  below are the header's. The functions are written from the specification, each marked
  so, and only as far as the name registry and the block of supported resolutions go.
\<close>

subsection \<open>The registry of display names\<close>

text \<open>
  \<^verbatim>\<open>struct _NAMES { CHAR naam[256]; }\<close>, and \<^verbatim>\<open>std::list<NAMES> displayList\<close>.
  The bound of 256 characters is not modelled: a name is a string of any length.
\<close>

type_synonym NAMES = string

text \<open>
  Modelled from the spec: the form of a generated name, which the header does not give.
  Section 4.3 speaks of "an incrementing per-device suffix": here a name is a base
  string followed by the suffix in decimal digits.
\<close>

definition digit :: "nat \<Rightarrow> char" where
  "digit d = ''0123456789'' ! d"

function decimal :: "nat \<Rightarrow> string" where
  "decimal n = (if n < 10 then [digit n]
                else decimal (n div 10) @ [digit (n mod 10)])"
  by pat_completeness auto
termination
  by (relation "measure (\<lambda>n. n)") auto

declare decimal.simps [simp del]

definition suffixed :: "string \<Rightarrow> nat \<Rightarrow> NAMES" where
  "suffixed base n = base @ decimal n"

text \<open>
  Modelled from the spec: the body of \<^verbatim>\<open>bool ContainDisplayName(char naam[256])\<close>,
  declared in the header. Section 3: the registry is the "set of in-use device names";
  the function says whether a name is in it.
\<close>

definition ContainDisplayName :: "NAMES list \<Rightarrow> NAMES \<Rightarrow> bool" where
  "ContainDisplayName displayList naam \<longleftrightarrow> naam \<in> set displayList"

text \<open>
  Modelled from the spec: the search inside \<^verbatim>\<open>getSetDisplayName\<close>. Section 4.3:
  the suffix is "checked against the DisplayName registry; collisions bump the suffix
  until a free name is found". The loop starts at the suffix \<open>n\<close> and stops at the
  first one whose name is not registered. That it always stops is proved below, where
  the facts it needs are at hand.
\<close>

function free_suffix :: "NAMES list \<Rightarrow> string \<Rightarrow> nat \<Rightarrow> nat" where
  "free_suffix displayList base n =
     (if ContainDisplayName displayList (suffixed base n)
      then free_suffix displayList base (Suc n) else n)"
  by pat_completeness auto

text \<open>
  Modelled from the spec: the body of \<^verbatim>\<open>void getSetDisplayName(char* displayName)\<close>,
  declared in the header. It gets the free name and sets it in the registry; the name
  and the new registry are returned.
\<close>

definition getSetDisplayName :: "string \<Rightarrow> nat \<Rightarrow> NAMES list \<Rightarrow> NAMES \<times> NAMES list" where
  "getSetDisplayName base start displayList =
     (let naam = suffixed base (free_suffix displayList base start)
      in (naam, displayList @ [naam]))"

text \<open>
  Modelled from the spec: what attach and detach do to the registry. Section 3: the
  registry "monotonically grows unless a device is removed". An attach assigns one new
  name; the removal of a device takes its name out.
\<close>

datatype name_op = Assign string nat | Release NAMES

fun name_step :: "name_op \<Rightarrow> NAMES list \<Rightarrow> NAMES list" where
  "name_step (Assign base start) displayList = snd (getSetDisplayName base start displayList)"
| "name_step (Release naam) displayList = removeAll naam displayList"

subsection \<open>The block of supported resolutions\<close>

text \<open>
  \<^verbatim>\<open>struct _SUPPORTEDMONITORS { int counter; int w[200]; int h[200]; }\<close>, lines 58-63 of
  the header. The arrays are lists; a block as the header declares it has 200 entries in
  each. The integers are unbounded here: no sum below leaves the range of a C int.
\<close>

record SUPPORTEDMONITORS =
  counter :: int
  w :: "int list"
  h :: "int list"

definition valid_block :: "SUPPORTEDMONITORS \<Rightarrow> bool" where
  "valid_block b \<longleftrightarrow>
     0 \<le> counter b \<and> counter b \<le> 200 \<and> length (w b) = 200 \<and> length (h b) = 200"

text \<open>The pairs (width, height) the block holds: the first \<open>counter\<close> entries, in order.\<close>

definition resolutions :: "SUPPORTEDMONITORS \<Rightarrow> (int \<times> int) list" where
  "resolutions b = zip (take (nat (counter b)) (w b)) (take (nat (counter b)) (h b))"

text \<open>
  Modelled from the spec: the block as the publisher finds it when the shared memory is
  created, all zero.
\<close>

definition zero_block :: SUPPORTEDMONITORS where
  "zero_block = \<lparr>counter = 0, w = replicate 200 0, h = replicate 200 0\<rparr>"

text \<open>
  Modelled from the spec: what happens to a list that does not fit. Section 9 leaves the
  choice to the implementer ("reject vs. truncate beyond capacity"), so it is a
  parameter.
\<close>

datatype capacity_policy = Reject | Truncate

text \<open>
  Modelled from the spec: the writer of the block, whose code is not among the sources.
  Section 3: the set is an "ordered sequence of (width,height) pairs, bounded capacity
  (e.g., 200), publisher-owned, append-only per process lifetime". One pair is written
  at the slot the counter names, and the counter goes up by one.
\<close>

definition put_resolution :: "int \<times> int \<Rightarrow> SUPPORTEDMONITORS \<Rightarrow> SUPPORTEDMONITORS" where
  "put_resolution p b =
     b\<lparr>w := (w b)[nat (counter b) := fst p], h := (h b)[nat (counter b) := snd p],
       counter := counter b + 1\<rparr>"

text \<open>
  Modelled from the spec: \<^verbatim>\<open>publish(list, capacity=200)\<close> of section 4.5. The pairs of
  the list are appended while there is room; a list longer than the room left is
  refused whole or cut, as the policy says.
\<close>

definition publish :: "capacity_policy \<Rightarrow> (int \<times> int) list \<Rightarrow> SUPPORTEDMONITORS \<Rightarrow>
    SUPPORTEDMONITORS" where
  "publish policy list b =
     (let room = 200 - nat (counter b) in
      if length list \<le> room then fold put_resolution list b
      else (case policy of
              Reject \<Rightarrow> b
            | Truncate \<Rightarrow> fold put_resolution (take room list) b))"

section \<open>Properties of the display catalog\<close>

subsection \<open>The scan of getSelectedScreen\<close>

lemma scan_monitors_from:
  assumes "catalog_ok st" "0 \<le> i" "i \<le> nr_monitors st + 1"
  shows "scan_monitors st hmon i =
     Inr (let rest = drop (nat i) (take (nat (nr_monitors st) + 1) (monarray st));
              k = length (takeWhile (\<lambda>m. hm m \<noteq> hmon) rest)
          in if k < length rest then i + int k else 0)"
  using assms
proof (induction st hmon i rule: scan_monitors.induct)
  case (1 st hmon i)
  let ?n = "nr_monitors st"
  let ?slots = "take (nat ?n + 1) (monarray st)"
  have len: "length ?slots = nat ?n + 1"
    using "1.prems"(1) by (simp add: catalog_ok_def)
  show ?case
  proof (cases "i \<le> ?n")
    case False
    with "1.prems" have "nat i = nat ?n + 1" unfolding catalog_ok_def by linarith
    with len have "drop (nat i) ?slots = []" by simp
    with False show ?thesis by (simp add: scan_monitors.simps [of st hmon i])
  next
    case True
    with "1.prems" have inb: "nat i < length (monarray st)" and inb': "nat i < length ?slots"
      using len unfolding catalog_ok_def by linarith+
    have dr: "drop (nat i) ?slots = (monarray st ! nat i) # drop (nat (i + 1)) ?slots"
    proof -
      have "nat (i + 1) = Suc (nat i)" using "1.prems"(2) by linarith
      moreover have "?slots ! nat i = monarray st ! nat i" using inb' by simp
      ultimately show ?thesis using Cons_nth_drop_Suc [OF inb'] by simp
    qed
    show ?thesis
    proof (cases "hm (monarray st ! nat i) = hmon")
      case True
      with \<open>i \<le> ?n\<close> inb "1.prems"(2) dr show ?thesis
        by (simp add: scan_monitors.simps [of st hmon i])
    next
      case False
      have "scan_monitors st hmon i = scan_monitors st hmon (i + 1)"
        using False \<open>i \<le> ?n\<close> inb "1.prems"(2) by (simp add: scan_monitors.simps [of st hmon i])
      also have "\<dots> = Inr (let rest = drop (nat (i + 1)) ?slots;
              k = length (takeWhile (\<lambda>m. hm m \<noteq> hmon) rest)
          in if k < length rest then (i + 1) + int k else 0)"
        using "1.IH" [OF \<open>i \<le> ?n\<close> _ False] inb "1.prems" \<open>i \<le> ?n\<close> by simp
      finally show ?thesis using False dr by (simp add: Let_def)
    qed
  qed
qed

subsection \<open>The enumeration loop\<close>

lemma enum_loop_Cons:
  "enum_loop os (dd # rest) id0 st =
     (if listed os dd then
        (if is_primary dd
         then (case store_monitor 1 (entry_of os dd) st of
                 Inl e \<Rightarrow> Inl e
               | Inr st' \<Rightarrow> enum_loop os rest id0 st')
         else (case store_monitor id0 (entry_of os dd) st of
                 Inl e \<Rightarrow> Inl e
               | Inr st' \<Rightarrow> enum_loop os rest (id0 + 1) (st'\<lparr>nr_monitors := id0\<rparr>)))
      else enum_loop os rest id0 st)"
  by (simp add: listed_def is_primary_def)

declare enum_loop.simps(2) [simp del]

lemma store_monitor_Inr:
  "store_monitor i m st = Inr st' \<longleftrightarrow>
     0 \<le> i \<and> nat i < length (monarray st) \<and> st' = st\<lparr>monarray := (monarray st)[nat i := m]\<rparr>"
  by (auto simp: store_monitor_def)

lemma enum_loop_id:
  "enum_loop os ds id0 st = Inr (id1, st') \<Longrightarrow>
     id1 = id0 + int (length (others os ds)) \<and> length (monarray st') = length (monarray st)"
proof (induction ds arbitrary: id0 st)
  case Nil
  then show ?case by (simp add: others_def)
next
  case (Cons dd rest)
  show ?case
  proof (cases "listed os dd")
    case False
    with Cons show ?thesis by (simp add: enum_loop_Cons others_def)
  next
    case True
    show ?thesis
    proof (cases "is_primary dd")
      case True
      with \<open>listed os dd\<close> Cons.prems obtain st1 where
        s: "store_monitor 1 (entry_of os dd) st = Inr st1" and
        r: "enum_loop os rest id0 st1 = Inr (id1, st')"
        by (auto simp: enum_loop_Cons split: sum.splits)
      from Cons.IH [OF r] s True show ?thesis
        by (auto simp: others_def store_monitor_Inr)
    next
      case False
      with \<open>listed os dd\<close> Cons.prems obtain st1 where
        s: "store_monitor id0 (entry_of os dd) st = Inr st1" and
        r: "enum_loop os rest (id0 + 1) (st1\<lparr>nr_monitors := id0\<rparr>) = Inr (id1, st')"
        by (auto simp: enum_loop_Cons split: sum.splits)
      from Cons.IH [OF r] s False \<open>listed os dd\<close> show ?thesis
        by (auto simp: others_def store_monitor_Inr)
    qed
  qed
qed

lemma enum_loop_nr:
  "enum_loop os ds id0 st = Inr (id1, st') \<Longrightarrow>
     nr_monitors st' = (if others os ds = [] then nr_monitors st
                        else id0 + int (length (others os ds)) - 1)"
proof (induction ds arbitrary: id0 st)
  case Nil
  then show ?case by (simp add: others_def)
next
  case (Cons dd rest)
  show ?case
  proof (cases "listed os dd")
    case False
    with Cons show ?thesis by (simp add: enum_loop_Cons others_def)
  next
    case True
    show ?thesis
    proof (cases "is_primary dd")
      case True
      with \<open>listed os dd\<close> Cons.prems obtain st1 where
        s: "store_monitor 1 (entry_of os dd) st = Inr st1" and
        r: "enum_loop os rest id0 st1 = Inr (id1, st')"
        by (auto simp: enum_loop_Cons split: sum.splits)
      from Cons.IH [OF r] s True show ?thesis
        by (auto simp: others_def store_monitor_Inr)
    next
      case False
      with \<open>listed os dd\<close> Cons.prems obtain st1 where
        s: "store_monitor id0 (entry_of os dd) st = Inr st1" and
        r: "enum_loop os rest (id0 + 1) (st1\<lparr>nr_monitors := id0\<rparr>) = Inr (id1, st')"
        by (auto simp: enum_loop_Cons split: sum.splits)
      from Cons.IH [OF r] s False \<open>listed os dd\<close> show ?thesis
        by (auto simp: others_def store_monitor_Inr)
    qed
  qed
qed

lemma enum_loop_untouched:
  "enum_loop os ds id0 st = Inr (id1, st') \<Longrightarrow> 0 \<le> id0 \<Longrightarrow> j \<noteq> 1 \<Longrightarrow>
     j < nat id0 \<or> nat id1 \<le> j \<Longrightarrow> monarray st' ! j = monarray st ! j"
proof (induction ds arbitrary: id0 st)
  case Nil
  then show ?case by simp
next
  case (Cons dd rest)
  show ?case
  proof (cases "listed os dd")
    case False
    with Cons show ?thesis by (simp add: enum_loop_Cons)
  next
    case True
    show ?thesis
    proof (cases "is_primary dd")
      case True
      with \<open>listed os dd\<close> Cons.prems obtain st1 where
        s: "store_monitor 1 (entry_of os dd) st = Inr st1" and
        r: "enum_loop os rest id0 st1 = Inr (id1, st')"
        by (auto simp: enum_loop_Cons split: sum.splits)
      have "monarray st' ! j = monarray st1 ! j"
        using Cons.IH [OF r] Cons.prems by simp
      with s \<open>j \<noteq> 1\<close> show ?thesis by (auto simp: store_monitor_Inr)
    next
      case False
      with \<open>listed os dd\<close> Cons.prems obtain st1 where
        s: "store_monitor id0 (entry_of os dd) st = Inr st1" and
        r: "enum_loop os rest (id0 + 1) (st1\<lparr>nr_monitors := id0\<rparr>) = Inr (id1, st')"
        by (auto simp: enum_loop_Cons split: sum.splits)
      from enum_loop_id [OF r] have "id0 + 1 \<le> id1" by simp
      with Cons.prems have j: "j < nat (id0 + 1) \<or> nat id1 \<le> j" and ne: "j \<noteq> nat id0"
        by linarith+
      have "monarray st' ! j = monarray (st1\<lparr>nr_monitors := id0\<rparr>) ! j"
        using Cons.IH [OF r _ \<open>j \<noteq> 1\<close> j] Cons.prems by simp
      with s ne show ?thesis by (auto simp: store_monitor_Inr)
    qed
  qed
qed

lemma enum_loop_others:
  "enum_loop os ds id0 st = Inr (id1, st') \<Longrightarrow> 2 \<le> id0 \<Longrightarrow> k < length (others os ds) \<Longrightarrow>
     monarray st' ! (nat id0 + k) = entry_of os (others os ds ! k)"
proof (induction ds arbitrary: id0 st k)
  case Nil
  then show ?case by (simp add: others_def)
next
  case (Cons dd rest)
  show ?case
  proof (cases "listed os dd")
    case False
    with Cons show ?thesis by (simp add: enum_loop_Cons others_def)
  next
    case True
    show ?thesis
    proof (cases "is_primary dd")
      case True
      with \<open>listed os dd\<close> Cons.prems obtain st1 where
        s: "store_monitor 1 (entry_of os dd) st = Inr st1" and
        r: "enum_loop os rest id0 st1 = Inr (id1, st')"
        by (auto simp: enum_loop_Cons split: sum.splits)
      from Cons.IH [OF r] Cons.prems True show ?thesis
        by (simp add: others_def)
    next
      case False
      with \<open>listed os dd\<close> Cons.prems obtain st1 where
        s: "store_monitor id0 (entry_of os dd) st = Inr st1" and
        r: "enum_loop os rest (id0 + 1) (st1\<lparr>nr_monitors := id0\<rparr>) = Inr (id1, st')"
        by (auto simp: enum_loop_Cons split: sum.splits)
      have o: "others os (dd # rest) = dd # others os rest"
        using False \<open>listed os dd\<close> by (simp add: others_def)
      show ?thesis
      proof (cases k)
        case 0
        have "nat id0 \<noteq> 1" "nat id0 < nat (id0 + 1)" using \<open>2 \<le> id0\<close> by linarith+
        then have "monarray st' ! nat id0 = monarray (st1\<lparr>nr_monitors := id0\<rparr>) ! nat id0"
          using enum_loop_untouched [OF r, of "nat id0"] \<open>2 \<le> id0\<close> by simp
        with s 0 o show ?thesis by (auto simp: store_monitor_Inr)
      next
        case (Suc k')
        have n: "nat (id0 + 1) + k' = nat id0 + Suc k'" using \<open>2 \<le> id0\<close> by linarith
        from Suc Cons.prems o have "k' < length (others os rest)" by simp
        from Cons.IH [OF r _ this] Cons.prems have
          "monarray st' ! (nat (id0 + 1) + k') = entry_of os (others os rest ! k')" by simp
        with Suc o n show ?thesis by simp
      qed
    qed
  qed
qed

lemma enum_loop_primary:
  "enum_loop os ds id0 st = Inr (id1, st') \<Longrightarrow> 2 \<le> id0 \<Longrightarrow>
     monarray st' ! 1 = (if primaries os ds = [] then monarray st ! 1
                         else entry_of os (last (primaries os ds)))"
proof (induction ds arbitrary: id0 st)
  case Nil
  then show ?case by (simp add: primaries_def)
next
  case (Cons dd rest)
  show ?case
  proof (cases "listed os dd")
    case False
    with Cons show ?thesis by (simp add: enum_loop_Cons primaries_def)
  next
    case True
    show ?thesis
    proof (cases "is_primary dd")
      case True
      with \<open>listed os dd\<close> Cons.prems obtain st1 where
        s: "store_monitor 1 (entry_of os dd) st = Inr st1" and
        r: "enum_loop os rest id0 st1 = Inr (id1, st')"
        by (auto simp: enum_loop_Cons split: sum.splits)
      from s have "monarray st1 ! 1 = entry_of os dd" by (auto simp: store_monitor_Inr)
      with Cons.IH [OF r] Cons.prems True \<open>listed os dd\<close> show ?thesis
        by (simp add: primaries_def)
    next
      case False
      with \<open>listed os dd\<close> Cons.prems obtain st1 where
        s: "store_monitor id0 (entry_of os dd) st = Inr st1" and
        r: "enum_loop os rest (id0 + 1) (st1\<lparr>nr_monitors := id0\<rparr>) = Inr (id1, st')"
        by (auto simp: enum_loop_Cons split: sum.splits)
      have "nat id0 \<noteq> 1" using \<open>2 \<le> id0\<close> by linarith
      with s have "monarray st1 ! 1 = monarray st ! 1" by (auto simp: store_monitor_Inr)
      with Cons.IH [OF r] Cons.prems False show ?thesis
        by (simp add: primaries_def)
    qed
  qed
qed

lemma enum_loop_succeeds:
  "2 \<le> id0 \<Longrightarrow> nat id0 + length (others os ds) \<le> length (monarray st) \<Longrightarrow>
     \<exists>r. enum_loop os ds id0 st = Inr r"
proof (induction ds arbitrary: id0 st)
  case Nil
  then show ?case by simp
next
  case (Cons dd rest)
  show ?case
  proof (cases "listed os dd")
    case False
    with Cons show ?thesis by (simp add: enum_loop_Cons others_def)
  next
    case True
    show ?thesis
    proof (cases "is_primary dd")
      case True
      have "1 < length (monarray st)" using Cons.prems by linarith
      then have s: "store_monitor 1 (entry_of os dd) st =
          Inr (st\<lparr>monarray := (monarray st)[1 := entry_of os dd]\<rparr>)"
        by (simp add: store_monitor_def)
      have "\<exists>r. enum_loop os rest id0 (st\<lparr>monarray := (monarray st)[1 := entry_of os dd]\<rparr>) = Inr r"
        using Cons.prems True by (intro Cons.IH) (simp_all add: others_def)
      with s True \<open>listed os dd\<close> show ?thesis by (simp add: enum_loop_Cons)
    next
      case False
      have o: "others os (dd # rest) = dd # others os rest"
        using False \<open>listed os dd\<close> by (simp add: others_def)
      have "nat id0 < length (monarray st)" using Cons.prems o by simp
      then have s: "store_monitor id0 (entry_of os dd) st =
          Inr (st\<lparr>monarray := (monarray st)[nat id0 := entry_of os dd]\<rparr>)"
        using \<open>2 \<le> id0\<close> by (simp add: store_monitor_def)
      have "nat (id0 + 1) = Suc (nat id0)" using \<open>2 \<le> id0\<close> by linarith
      then have "\<exists>r. enum_loop os rest (id0 + 1)
          (st\<lparr>monarray := (monarray st)[nat id0 := entry_of os dd], nr_monitors := id0\<rparr>) = Inr r"
        using Cons.prems o by (intro Cons.IH) simp_all
      with s False \<open>listed os dd\<close> show ?thesis by (simp add: enum_loop_Cons)
    qed
  qed
qed

lemma enum_loop_bound:
  "enum_loop os ds id0 st = Inr (id1, st') \<Longrightarrow> 0 \<le> id0 \<Longrightarrow> others os ds \<noteq> [] \<Longrightarrow>
     nat id1 \<le> length (monarray st)"
proof (induction ds arbitrary: id0 st)
  case Nil
  then show ?case by (simp add: others_def)
next
  case (Cons dd rest)
  show ?case
  proof (cases "listed os dd")
    case False
    with Cons show ?thesis by (simp add: enum_loop_Cons others_def)
  next
    case True
    show ?thesis
    proof (cases "is_primary dd")
      case True
      with \<open>listed os dd\<close> Cons.prems obtain st1 where
        s: "store_monitor 1 (entry_of os dd) st = Inr st1" and
        r: "enum_loop os rest id0 st1 = Inr (id1, st')"
        by (auto simp: enum_loop_Cons split: sum.splits)
      from Cons.prems True have "others os rest \<noteq> []" by (simp add: others_def)
      from Cons.IH [OF r \<open>0 \<le> id0\<close> this] s show ?thesis
        by (auto simp: store_monitor_Inr)
    next
      case False
      with \<open>listed os dd\<close> Cons.prems obtain st1 where
        s: "store_monitor id0 (entry_of os dd) st = Inr st1" and
        r: "enum_loop os rest (id0 + 1) (st1\<lparr>nr_monitors := id0\<rparr>) = Inr (id1, st')"
        by (auto simp: enum_loop_Cons split: sum.splits)
      from s have inb: "nat id0 < length (monarray st)" and
        len: "length (monarray st1) = length (monarray st)"
        by (auto simp: store_monitor_Inr)
      show ?thesis
      proof (cases "others os rest = []")
        case True
        with enum_loop_id [OF r] have "id1 = id0 + 1" by simp
        with inb \<open>0 \<le> id0\<close> show ?thesis by linarith
      next
        case False
        from Cons.IH [OF r _ False] \<open>0 \<le> id0\<close> len show ?thesis by simp
      qed
    qed
  qed
qed

lemma checkmonitors_Inr:
  assumes "checkmonitors os st = Inr st'"
  obtains id1 st1 where
    "enum_loop os (EnumDisplayDevices os) 2 (st\<lparr>nr_monitors := 1\<rparr>) = Inr (id1, st1)"
    "2 \<le> length (monarray st1)"
    "st' = st1\<lparr>monarray :=
       (monarray st1)[0 := all_displays os (monarray st1 ! 0) (monarray st1 ! 1)]\<rparr>"
  using assms by (auto simp: checkmonitors_def split: sum.splits if_splits)

lemma checkmonitors_catalog_ok:
  assumes "checkmonitors os st = Inr st'"
  shows "catalog_ok st'"
proof -
  from assms obtain id1 st1 where
    r: "enum_loop os (EnumDisplayDevices os) 2 (st\<lparr>nr_monitors := 1\<rparr>) = Inr (id1, st1)" and
    l: "2 \<le> length (monarray st1)" and
    e: "st' = st1\<lparr>monarray :=
       (monarray st1)[0 := all_displays os (monarray st1 ! 0) (monarray st1 ! 1)]\<rparr>"
    by (rule checkmonitors_Inr)
  let ?o = "others os (EnumDisplayDevices os)"
  from enum_loop_id [OF r] have id1: "id1 = 2 + int (length ?o)"
    and len: "length (monarray st1) = length (monarray st)" by simp_all
  from enum_loop_nr [OF r] have nr: "nr_monitors st1 = (if ?o = [] then 1 else int (length ?o) + 1)"
    by simp
  show ?thesis
  proof (cases "?o = []")
    case True
    with nr l e show ?thesis by (simp add: catalog_ok_def)
  next
    case False
    from enum_loop_bound [OF r _ False] id1 len have "length ?o + 2 \<le> length (monarray st1)"
      by simp
    with nr False e show ?thesis by (simp add: catalog_ok_def)
  qed
qed

text \<open>The entry for all displays, as \<^verbatim>\<open>checkmonitors\<close> leaves it in slot 0.\<close>

lemma checkmonitors_slot0:
  assumes "checkmonitors os st = Inr st'"
  shows "width (monarray st' ! 0) = SM_CXVIRTUALSCREEN os"
    and "height (monarray st' ! 0) = SM_CYVIRTUALSCREEN os"
    and "offsetx (monarray st' ! 0) = SM_XVIRTUALSCREEN os"
    and "offsety (monarray st' ! 0) = SM_YVIRTUALSCREEN os"
    and "devicename (monarray st' ! 0) = ''All displays''"
    and "wl (monarray st' ! 0) =
      (if sint (SM_XVIRTUALSCREEN os) < 0 then SM_XVIRTUALSCREEN os
       else left (case SPI_GETWORKAREA os of Some r \<Rightarrow> r | None \<Rightarrow> zero_RECT))"
    and "wt (monarray st' ! 0) =
      (if sint (SM_YVIRTUALSCREEN os) < 0 then SM_XVIRTUALSCREEN os
       else top' (case SPI_GETWORKAREA os of Some r \<Rightarrow> r | None \<Rightarrow> zero_RECT))"
proof -
  from assms obtain id1 st1 where
    l: "2 \<le> length (monarray st1)" and
    e: "st' = st1\<lparr>monarray :=
       (monarray st1)[0 := all_displays os (monarray st1 ! 0) (monarray st1 ! 1)]\<rparr>"
    by (rule checkmonitors_Inr)
  from l have "0 < length (monarray st1)" by linarith
  then have z: "monarray st' ! 0 = all_displays os (monarray st1 ! 0) (monarray st1 ! 1)"
    by (simp add: e)
  show "width (monarray st' ! 0) = SM_CXVIRTUALSCREEN os"
    and "height (monarray st' ! 0) = SM_CYVIRTUALSCREEN os"
    and "offsetx (monarray st' ! 0) = SM_XVIRTUALSCREEN os"
    and "offsety (monarray st' ! 0) = SM_YVIRTUALSCREEN os"
    and "devicename (monarray st' ! 0) = ''All displays''"
    and "wl (monarray st' ! 0) =
      (if sint (SM_XVIRTUALSCREEN os) < 0 then SM_XVIRTUALSCREEN os
       else left (case SPI_GETWORKAREA os of Some r \<Rightarrow> r | None \<Rightarrow> zero_RECT))"
    and "wt (monarray st' ! 0) =
      (if sint (SM_YVIRTUALSCREEN os) < 0 then SM_XVIRTUALSCREEN os
       else top' (case SPI_GETWORKAREA os of Some r \<Rightarrow> r | None \<Rightarrow> zero_RECT))"
    unfolding z by (simp_all add: all_displays_def Let_def)
qed

subsection \<open>The example desktop, evaluated\<close>

lemmas ex_defs = ex_os_def ex_dd1_def ex_dd2_def ex_dd3_def ex_dd4_def ex_st_def zero_monitor_def

lemmas flag_defs = DISPLAY_DEVICE_ATTACHED_TO_DESKTOP_def DISPLAY_DEVICE_PRIMARY_DEVICE_def
  DISPLAY_DEVICE_MIRRORING_DRIVER_def

lemmas step_defs = store_monitor_def entry_of_def monitor_handle_def current_mode_def
  monitor_work_def

lemma ex_others: "others ex_os (EnumDisplayDevices ex_os) = [ex_dd2]"
  by (simp add: others_def listed_def is_primary_def ex_defs flag_defs step_defs)

lemma ex_primaries: "primaries ex_os (EnumDisplayDevices ex_os) = [ex_dd1]"
  by (simp add: primaries_def listed_def is_primary_def ex_defs flag_defs step_defs)

lemma ex_run: "checkmonitors ex_os ex_st = Inr ex_result"
  by (simp add: checkmonitors_def enum_loop.simps all_displays_def ex_result_def
      ex_defs flag_defs step_defs)

subsection \<open>Which screen a window is on\<close>

text \<open>
  Claim C10. For every window handle, \<^verbatim>\<open>getSelectedScreen\<close> returns 0 whenever
  \<^verbatim>\<open>allowMonitorSpanning\<close> is true. Otherwise it returns the index of the first slot
  among \<open>0 .. nr_monitors\<close> that records the handle of the monitor nearest the window,
  and 0 when none of these slots records it. The result is always an index between 0 and
  \<^verbatim>\<open>nr_monitors\<close> inclusive, and the loop never reads outside the array. The
  catalog is one that a refresh has left: \<open>catalog_ok\<close>, which
  \<open>checkmonitors_catalog_ok\<close> shows of every result of \<^verbatim>\<open>checkmonitors\<close>.
\<close>

theorem getSelectedScreen_index:
  assumes "catalog_ok st"
  shows "\<exists>r. getSelectedScreen os st hwnd allowMonitorSpanning = Inr r \<and>
     0 \<le> r \<and> r \<le> nr_monitors st \<and>
     (allowMonitorSpanning \<longrightarrow> r = 0) \<and>
     (\<not> allowMonitorSpanning \<longrightarrow>
        (if \<exists>i \<le> nat (nr_monitors st). hm (monarray st ! i) = MonitorFromWindow os hwnd
         then hm (monarray st ! nat r) = MonitorFromWindow os hwnd \<and>
              (\<forall>j < nat r. hm (monarray st ! j) \<noteq> MonitorFromWindow os hwnd)
         else r = 0))"
proof (cases allowMonitorSpanning)
  case True
  with assms show ?thesis by (simp add: getSelectedScreen_def catalog_ok_def)
next
  case False
  define hmon where "hmon = MonitorFromWindow os hwnd"
  define n where "n = nat (nr_monitors st)"
  define slots where "slots = take (n + 1) (monarray st)"
  define k where "k = length (takeWhile (\<lambda>m. hm m \<noteq> hmon) slots)"
  define r where "r = (if k < length slots then int k else 0)"
  have len: "length slots = n + 1"
    using assms by (simp add: catalog_ok_def slots_def n_def)
  have nth: "slots ! i = monarray st ! i" if "i \<le> n" for i
    using that by (simp add: slots_def)
  have "scan_monitors st hmon 0 = Inr r"
    using scan_monitors_from [OF assms, of 0 hmon] assms
    by (simp add: Let_def catalog_ok_def r_def k_def slots_def n_def)
  then have run: "getSelectedScreen os st hwnd allowMonitorSpanning = Inr r"
    using False by (simp add: getSelectedScreen_def hmon_def)
  have kle: "k \<le> length slots" unfolding k_def by (rule length_takeWhile_le)
  have "int n = nr_monitors st" using assms by (simp add: catalog_ok_def n_def)
  then have bounds: "0 \<le> r \<and> r \<le> nr_monitors st"
    using len by (simp add: r_def)
  have before: "hm (monarray st ! j) \<noteq> hmon" if "j < k" for j
  proof -
    from that have "slots ! j \<in> set (takeWhile (\<lambda>m. hm m \<noteq> hmon) slots)"
      unfolding k_def by (metis nth_mem takeWhile_nth)
    then have "hm (slots ! j) \<noteq> hmon" by (auto dest: set_takeWhileD)
    moreover have "j \<le> n" using that kle len by simp
    ultimately show ?thesis using nth by simp
  qed
  show ?thesis
  proof (cases "k < length slots")
    case True
    then have "hm (slots ! k) = hmon"
      using nth_length_takeWhile [of "\<lambda>m. hm m \<noteq> hmon" slots] by (simp add: k_def)
    moreover have "k \<le> n" using True len by simp
    ultimately have at: "hm (monarray st ! k) = hmon" using nth by simp
    then have ex: "\<exists>i \<le> n. hm (monarray st ! i) = hmon" using \<open>k \<le> n\<close> by blast
    have "r = int k" using True by (simp add: r_def)
    with run bounds at before ex False show ?thesis
      unfolding hmon_def n_def by (intro exI [of _ r]) simp
  next
    case False
    with kle have all: "k = length slots" by linarith
    have none: "\<not> (\<exists>i \<le> n. hm (monarray st ! i) = hmon)"
      using before all len by auto
    have "r = 0" using False by (simp add: r_def)
    with run bounds none \<open>\<not> allowMonitorSpanning\<close> show ?thesis
      unfolding hmon_def n_def by (intro exI [of _ r]) simp
  qed
qed

text \<open>
  On the example desktop the window 7 is nearest the second monitor, whose handle slot 2
  records.
\<close>

theorem getSelectedScreen_index_witness:
  "catalog_ok ex_result \<and>
   (\<exists>r. getSelectedScreen ex_os ex_result 7 False = Inr r \<and> 0 \<le> r \<and> r \<le> 2 \<and>
      hm (monarray ex_result ! nat r) = 65539)"
proof -
  have ok: "catalog_ok ex_result" by (simp add: catalog_ok_def ex_result_def)
  have n: "nr_monitors ex_result = 2" by (simp add: ex_result_def)
  have w: "MonitorFromWindow ex_os 7 = 65539" by (simp add: ex_os_def)
  have "\<exists>i \<le> nat (nr_monitors ex_result). hm (monarray ex_result ! i) = MonitorFromWindow ex_os 7"
    by (rule exI [of _ 2]) (simp add: ex_result_def ex_os_def)
  with getSelectedScreen_index [OF ok, of ex_os 7 False] n w ok show ?thesis by auto
qed

subsection \<open>What a refresh lists\<close>

text \<open>
  Claim C7, as amended. A refresh lists exactly the enumerated adapters that are
  attached to the desktop, are not mirroring drivers and at whose position
  \<^verbatim>\<open>MonitorFromPoint\<close> finds a monitor (\<open>listed\<close>). Those of them without the primary
  flag fill the slots from 2 on, in enumeration order, and \<^verbatim>\<open>nr_monitors\<close> is their
  number plus one; the last of them with the primary flag, if there is one, fills slot 1,
  which is left as it was otherwise. Each entry (\<open>entry_of\<close>) holds the adapter's width,
  height, depth, frequency and position from its current settings, from its registry
  settings when the current ones cannot be read, and its device name. The slots above
  \<^verbatim>\<open>nr_monitors\<close> are left as they were. The refresh completes whenever the array has
  room for these entries, in particular when the enumeration yields no adapter and the
  array has two slots.
\<close>

theorem checkmonitors_entries:
  assumes "length (others os (EnumDisplayDevices os)) + 2 \<le> length (monarray st)"
  shows "\<exists>st'. checkmonitors os st = Inr st' \<and>
     length (monarray st') = length (monarray st) \<and>
     nr_monitors st' = int (length (others os (EnumDisplayDevices os))) + 1 \<and>
     (\<forall>k < length (others os (EnumDisplayDevices os)).
        monarray st' ! (k + 2) = entry_of os (others os (EnumDisplayDevices os) ! k)) \<and>
     monarray st' ! 1 =
       (if primaries os (EnumDisplayDevices os) = [] then monarray st ! 1
        else entry_of os (last (primaries os (EnumDisplayDevices os)))) \<and>
     (\<forall>j \<ge> length (others os (EnumDisplayDevices os)) + 2. monarray st' ! j = monarray st ! j)"
proof -
  define ds where "ds = EnumDisplayDevices os"
  define s0 where "s0 = st\<lparr>nr_monitors := 1\<rparr>"
  have cap: "nat 2 + length (others os ds) \<le> length (monarray s0)"
    using assms by (simp add: ds_def s0_def)
  from enum_loop_succeeds [OF _ cap] obtain id1 st1 where
    r: "enum_loop os ds 2 s0 = Inr (id1, st1)" by fastforce
  from enum_loop_id [OF r] have id1: "id1 = 2 + int (length (others os ds))"
    and len: "length (monarray st1) = length (monarray st)" by (simp_all add: s0_def)
  define st' where "st' = st1\<lparr>monarray :=
     (monarray st1)[0 := all_displays os (monarray st1 ! 0) (monarray st1 ! 1)]\<rparr>"
  have two: "2 \<le> length (monarray st1)" using assms len by simp
  have run: "checkmonitors os st = Inr st'"
    using r two by (simp add: checkmonitors_def ds_def s0_def st'_def)
  have nth: "monarray st' ! j = monarray st1 ! j" if "j \<noteq> 0" for j
    using that by (simp add: st'_def)
  have c1: "length (monarray st') = length (monarray st)" using len by (simp add: st'_def)
  have c2: "nr_monitors st' = int (length (others os ds)) + 1"
    using enum_loop_nr [OF r] by (simp add: st'_def s0_def)
  have c3: "monarray st' ! (k + 2) = entry_of os (others os ds ! k)"
    if "k < length (others os ds)" for k
    using enum_loop_others [OF r _ that] nth [of "k + 2"] by (simp add: add.commute)
  have c4: "monarray st' ! 1 =
      (if primaries os ds = [] then monarray st ! 1 else entry_of os (last (primaries os ds)))"
    using enum_loop_primary [OF r] nth [of 1] by (simp add: s0_def)
  have c5: "monarray st' ! j = monarray st ! j" if "length (others os ds) + 2 \<le> j" for j
  proof -
    have "j \<noteq> 1" "nat id1 \<le> j" using that id1 by simp_all
    then have "monarray st1 ! j = monarray s0 ! j"
      using enum_loop_untouched [OF r, of j] by simp
    moreover have "j \<noteq> 0" using that by simp
    ultimately show ?thesis using nth [of j] by (simp add: s0_def)
  qed
  from run c1 c2 c3 c4 c5 show ?thesis unfolding ds_def by blast
qed

text \<open>
  On the example desktop: one adapter without the primary flag, in slot 2 with its
  registry settings, and the primary adapter in slot 1; the mirroring driver and the
  adapter that is not attached are not listed.
\<close>

theorem checkmonitors_entries_witness:
  "length (others ex_os (EnumDisplayDevices ex_os)) + 2 \<le> length (monarray ex_st) \<and>
   (\<exists>st'. checkmonitors ex_os ex_st = Inr st' \<and> nr_monitors st' = 2 \<and>
      monarray st' ! 2 = entry_of ex_os ex_dd2 \<and> monarray st' ! 1 = entry_of ex_os ex_dd1 \<and>
      monarray st' ! 3 = zero_monitor)"
proof -
  have h: "length (others ex_os (EnumDisplayDevices ex_os)) + 2 \<le> length (monarray ex_st)"
    by (simp add: ex_others) (simp add: ex_st_def)
  from checkmonitors_entries [OF h] obtain st' where
    run: "checkmonitors ex_os ex_st = Inr st'" and
    nr: "nr_monitors st' = int (length (others ex_os (EnumDisplayDevices ex_os))) + 1" and
    oth: "\<forall>k < length (others ex_os (EnumDisplayDevices ex_os)).
        monarray st' ! (k + 2) = entry_of ex_os (others ex_os (EnumDisplayDevices ex_os) ! k)" and
    pri: "monarray st' ! 1 =
       (if primaries ex_os (EnumDisplayDevices ex_os) = [] then monarray ex_st ! 1
        else entry_of ex_os (last (primaries ex_os (EnumDisplayDevices ex_os))))" and
    rest: "\<forall>j \<ge> length (others ex_os (EnumDisplayDevices ex_os)) + 2.
        monarray st' ! j = monarray ex_st ! j"
    by blast
  from nr have a: "nr_monitors st' = 2" by (simp add: ex_others)
  from oth [rule_format, of 0] have b: "monarray st' ! 2 = entry_of ex_os ex_dd2"
    by (simp add: ex_others numeral_2_eq_2)
  from pri have c: "monarray st' ! 1 = entry_of ex_os ex_dd1" by (simp add: ex_primaries)
  from rest [rule_format, of 3] have d: "monarray st' ! 3 = zero_monitor"
    by (simp add: ex_others numeral_3_eq_3) (simp add: ex_st_def)
  from h run a b c d show ?thesis by blast
qed

text \<open>
  The claim as first stated, that every adapter attached to the desktop that is not a
  mirroring driver gets an entry, fails where no monitor is found at the adapter's
  position: the second adapter is attached and no mirroring driver, the refresh
  completes, and no entry bears its name.
\<close>

theorem checkmonitors_unlisted_counterexample:
  "ex_dd2 \<in> set (EnumDisplayDevices ce_os) \<and>
   StateFlags ex_dd2 AND DISPLAY_DEVICE_ATTACHED_TO_DESKTOP \<noteq> 0 \<and>
   StateFlags ex_dd2 AND DISPLAY_DEVICE_MIRRORING_DRIVER = 0 \<and>
   checkmonitors ce_os ex_st = Inr ce_result \<and>
   DeviceName ex_dd2 \<notin> set (map devicename (monarray ce_result))"
  by (simp add: checkmonitors_def enum_loop.simps all_displays_def ce_result_def ce_os_def
      ex_defs flag_defs step_defs)

subsection \<open>The work rectangle of the entry for all displays\<close>

text \<open>
  Claim C6. After a refresh the entry for all displays is in slot 0 with the bounds of
  the virtual screen and the name "All displays" (\<open>checkmonitors_slot0\<close>); its work
  rectangle should start at the virtual screen's left and top offsets where these are
  negative. Line 155 of display.cpp assigns the left offset to the top of the work
  rectangle. On the example desktop the virtual screen starts at (-1920, -1080), and the
  refresh leaves the top of the work rectangle at -1920 where the top offset is -1080.
\<close>

theorem all_displays_work_top_eval:
  "checkmonitors ex_os ex_st = Inr ex_result \<and>
   offsetx (monarray ex_result ! 0) = - 1920 \<and>
   offsety (monarray ex_result ! 0) = - 1080 \<and>
   wt (monarray ex_result ! 0) = - 1920"
  by (simp add: checkmonitors_def enum_loop.simps all_displays_def ex_result_def
      ex_defs flag_defs step_defs)

section \<open>Properties of the name registry\<close>

text \<open>The decimal suffix tells the numbers apart, so only finitely many suffixes are taken.\<close>

lemma digit_inj: "a < 10 \<Longrightarrow> b < 10 \<Longrightarrow> digit a = digit b \<Longrightarrow> a = b"
proof -
  have d: "distinct ''0123456789''" by simp
  have l: "length ''0123456789'' = 10" by simp
  show "a < 10 \<Longrightarrow> b < 10 \<Longrightarrow> digit a = digit b \<Longrightarrow> a = b"
    unfolding digit_def using nth_eq_iff_index_eq [OF d, of a b] l by metis
qed

lemma decimal_nonempty: "decimal n \<noteq> []"
  by (subst decimal.simps) simp

lemma decimal_inj: "decimal n = decimal m \<Longrightarrow> n = m"
proof (induction n arbitrary: m rule: decimal.induct)
  case (1 n)
  show ?case
  proof (cases "n < 10")
    case True
    note small = this
    show ?thesis
    proof (cases "m < 10")
      case True
      with small "1.prems" have "digit n = digit m"
        by (simp add: decimal.simps [of n] decimal.simps [of m])
      with small True show ?thesis by (rule digit_inj)
    next
      case False
      with small "1.prems" have "[digit n] = decimal (m div 10) @ [digit (m mod 10)]"
        by (simp add: decimal.simps [of n] decimal.simps [of m])
      then have "decimal (m div 10) = []" by simp
      with decimal_nonempty show ?thesis by blast
    qed
  next
    case False
    note big = this
    show ?thesis
    proof (cases "m < 10")
      case True
      with big "1.prems" have "decimal (n div 10) @ [digit (n mod 10)] = [digit m]"
        by (simp add: decimal.simps [of n] decimal.simps [of m])
      then have "decimal (n div 10) = []" by simp
      with decimal_nonempty show ?thesis by blast
    next
      case False
      with big "1.prems" have
        "decimal (n div 10) @ [digit (n mod 10)] = decimal (m div 10) @ [digit (m mod 10)]"
        by (simp add: decimal.simps [of n] decimal.simps [of m])
      then have hi: "decimal (n div 10) = decimal (m div 10)"
        and lo: "digit (n mod 10) = digit (m mod 10)" by simp_all
      from "1.IH" [OF big hi] have q: "n div 10 = m div 10" .
      have r: "n mod 10 = m mod 10" using lo by (intro digit_inj) simp_all
      from q r show ?thesis by (metis div_mult_mod_eq)
    qed
  qed
qed

lemma suffixed_inj: "suffixed base m = suffixed base n \<Longrightarrow> m = n"
  by (simp add: suffixed_def decimal_inj)

lemma finite_taken: "finite {k. suffixed base k \<in> set reg}"
proof -
  have "inj (suffixed base)" by (rule injI) (rule suffixed_inj)
  then have "finite (suffixed base -` set reg)" by (intro finite_vimageI) simp_all
  then show ?thesis by (simp add: vimage_def)
qed


text \<open>
  The search stops: each bump leaves one registered name fewer among the suffixes still
  to be tried.
\<close>

termination free_suffix
proof (relation "measure (\<lambda>(reg, base, n). card {k. n \<le> k \<and> suffixed base k \<in> set reg})")
  show "wf (measure (\<lambda>(reg, base, n). card {k. n \<le> k \<and> suffixed base k \<in> set reg}))"
    by simp
next
  fix displayList :: "NAMES list" and base :: string and n :: nat
  assume c: "ContainDisplayName displayList (suffixed base n)"
  let ?A = "{k. Suc n \<le> k \<and> suffixed base k \<in> set displayList}"
  let ?B = "{k. n \<le> k \<and> suffixed base k \<in> set displayList}"
  have fin: "finite ?B" using finite_taken [of base displayList] by (rule rev_finite_subset) auto
  have "n \<in> ?B" "n \<notin> ?A" using c by (simp_all add: ContainDisplayName_def)
  moreover have "?A \<subseteq> ?B" by auto
  ultimately have "?A \<subset> ?B" by blast
  with fin have "card ?A < card ?B" by (rule psubset_card_mono)
  then show "((displayList, base, Suc n), (displayList, base, n))
      \<in> measure (\<lambda>(reg, base, n). card {k. n \<le> k \<and> suffixed base k \<in> set reg})"
    by simp
qed

declare free_suffix.simps [simp del]


lemma free_suffix_spec:
  "start \<le> free_suffix reg base start \<and>
   suffixed base (free_suffix reg base start) \<notin> set reg \<and>
   (\<forall>k. start \<le> k \<and> k < free_suffix reg base start \<longrightarrow> suffixed base k \<in> set reg)"
proof (induction reg base start rule: free_suffix.induct)
  case (1 reg base n)
  show ?case
  proof (cases "ContainDisplayName reg (suffixed base n)")
    case False
    then have "free_suffix reg base n = n" by (simp add: free_suffix.simps [of reg base n])
    with False show ?thesis by (auto simp: ContainDisplayName_def)
  next
    case True
    define f where "f = free_suffix reg base (Suc n)"
    have eq: "free_suffix reg base n = f"
      using True by (simp add: free_suffix.simps [of reg base n] f_def)
    from "1.IH" [OF True] have
      lo: "Suc n \<le> f" and free: "suffixed base f \<notin> set reg" and
      below: "\<And>k. Suc n \<le> k \<Longrightarrow> k < f \<Longrightarrow> suffixed base k \<in> set reg"
      by (simp_all add: f_def)
    have "suffixed base k \<in> set reg" if "n \<le> k" "k < f" for k
    proof (cases "k = n")
      case True
      with \<open>ContainDisplayName reg (suffixed base n)\<close> show ?thesis
        by (simp add: ContainDisplayName_def)
    next
      case False
      with that have "Suc n \<le> k" by simp
      then show ?thesis using that(2) by (rule below)
    qed
    with lo free show ?thesis unfolding eq by simp
  qed
qed

lemma name_step_distinct: "distinct reg \<Longrightarrow> distinct (name_step op reg)"
proof (cases op)
  case (Assign base start)
  assume "distinct reg"
  with free_suffix_spec [of start reg base] Assign show ?thesis
    by (simp add: getSetDisplayName_def Let_def)
next
  case (Release naam)
  assume "distinct reg"
  with Release show ?thesis by (simp add: distinct_removeAll)
qed

lemma fold_name_step_distinct: "distinct reg \<Longrightarrow> distinct (fold name_step ops reg)"
  by (induction ops arbitrary: reg) (simp_all add: name_step_distinct)

text \<open>
  Claim C9. Naming never fails and never reuses a live name. \<^verbatim>\<open>getSetDisplayName\<close>
  is a total function; the name it returns carries the first suffix from \<open>start\<close> on
  whose name the registry does not contain, every smaller suffix from \<open>start\<close> on being
  taken; the name is not in the registry when it is assigned, and is registered by the
  call. Over any sequence of assignments and removals the names of a registry that was
  free of repetitions stay pairwise distinct.
\<close>

theorem getSetDisplayName_fresh:
  "(\<exists>n \<ge> start. fst (getSetDisplayName base start reg) = suffixed base n \<and>
       (\<forall>k. start \<le> k \<and> k < n \<longrightarrow> ContainDisplayName reg (suffixed base k))) \<and>
   \<not> ContainDisplayName reg (fst (getSetDisplayName base start reg)) \<and>
   snd (getSetDisplayName base start reg) = reg @ [fst (getSetDisplayName base start reg)] \<and>
   (distinct reg \<longrightarrow> distinct (fold name_step ops reg))"
proof -
  define f where "f = free_suffix reg base start"
  have nm: "fst (getSetDisplayName base start reg) = suffixed base f"
    and rg: "snd (getSetDisplayName base start reg) = reg @ [suffixed base f]"
    by (simp_all add: getSetDisplayName_def Let_def f_def)
  from free_suffix_spec [of start reg base] have
    lo: "start \<le> f" and free: "suffixed base f \<notin> set reg" and
    below: "\<forall>k. start \<le> k \<and> k < f \<longrightarrow> suffixed base k \<in> set reg"
    by (simp_all add: f_def)
  have a: "\<exists>n \<ge> start. fst (getSetDisplayName base start reg) = suffixed base n \<and>
       (\<forall>k. start \<le> k \<and> k < n \<longrightarrow> ContainDisplayName reg (suffixed base k))"
    using lo below nm unfolding ContainDisplayName_def by blast
  have b: "\<not> ContainDisplayName reg (fst (getSetDisplayName base start reg))"
    using free nm by (simp add: ContainDisplayName_def)
  have c: "snd (getSetDisplayName base start reg) = reg @ [fst (getSetDisplayName base start reg)]"
    using nm rg by simp
  have d: "distinct reg \<longrightarrow> distinct (fold name_step ops reg)"
    using fold_name_step_distinct [of reg ops] by blast
  from a b c d show ?thesis by blast
qed

text \<open>
  With two generated names and a real display in the registry the next name is the third;
  after a removal the freed suffix is the one assigned next, and the registry stays free
  of repetitions.
\<close>

lemmas naming_defs = getSetDisplayName_def Let_def free_suffix.simps ContainDisplayName_def
  suffixed_def decimal.simps digit_def

theorem getSetDisplayName_fresh_witness:
  "fst (getSetDisplayName ''UVNC_'' 1 [''UVNC_1'', ''DISPLAY1'', ''UVNC_2'']) = ''UVNC_3'' \<and>
   \<not> ContainDisplayName [''UVNC_1'', ''DISPLAY1'', ''UVNC_2''] ''UVNC_3'' \<and>
   snd (getSetDisplayName ''UVNC_'' 1 [''UVNC_1'', ''DISPLAY1'', ''UVNC_2'']) =
     [''UVNC_1'', ''DISPLAY1'', ''UVNC_2'', ''UVNC_3''] \<and>
   distinct [''UVNC_1'', ''DISPLAY1'', ''UVNC_2''] \<and>
   fold name_step [Release ''UVNC_1'', Assign ''UVNC_'' 1, Assign ''UVNC_'' 1]
     [''UVNC_1'', ''DISPLAY1'', ''UVNC_2''] = [''DISPLAY1'', ''UVNC_2'', ''UVNC_1'', ''UVNC_3''] \<and>
   distinct (fold name_step [Release ''UVNC_1'', Assign ''UVNC_'' 1, Assign ''UVNC_'' 1]
     [''UVNC_1'', ''DISPLAY1'', ''UVNC_2''])"
proof -
  have d: "distinct [''UVNC_1'', ''DISPLAY1'', ''UVNC_2'']" by simp
  have n: "fst (getSetDisplayName ''UVNC_'' 1 [''UVNC_1'', ''DISPLAY1'', ''UVNC_2'']) = ''UVNC_3''"
    by (simp add: naming_defs)
  have f: "fold name_step [Release ''UVNC_1'', Assign ''UVNC_'' 1, Assign ''UVNC_'' 1]
     [''UVNC_1'', ''DISPLAY1'', ''UVNC_2''] = [''DISPLAY1'', ''UVNC_2'', ''UVNC_1'', ''UVNC_3'']"
    by (simp add: naming_defs)
  from getSetDisplayName_fresh [of 1 "''UVNC_''" "[''UVNC_1'', ''DISPLAY1'', ''UVNC_2'']"
      "[Release ''UVNC_1'', Assign ''UVNC_'' 1, Assign ''UVNC_'' 1]"] d n f
  show ?thesis by simp
qed

section \<open>Properties of the block of supported resolutions\<close>

lemma put_resolution_valid:
  assumes "valid_block b" "counter b < 200"
  shows "valid_block (put_resolution p b)"
    and "counter (put_resolution p b) = counter b + 1"
    and "resolutions (put_resolution p b) = resolutions b @ [p]"
proof -
  define n where "n = nat (counter b)"
  have n: "n < 200" "length (w b) = 200" "length (h b) = 200" "0 \<le> counter b"
    using assms by (simp_all add: valid_block_def n_def)
  show "valid_block (put_resolution p b)"
    using assms by (simp add: valid_block_def put_resolution_def)
  show "counter (put_resolution p b) = counter b + 1"
    by (simp add: put_resolution_def)
  have s: "nat (counter b + 1) = Suc n" using n by (simp add: n_def)
  have tw: "take (Suc n) ((w b)[n := fst p]) = take n (w b) @ [fst p]"
    using n by (simp add: take_Suc_conv_app_nth)
  have th: "take (Suc n) ((h b)[n := snd p]) = take n (h b) @ [snd p]"
    using n by (simp add: take_Suc_conv_app_nth)
  show "resolutions (put_resolution p b) = resolutions b @ [p]"
    using n unfolding resolutions_def put_resolution_def
    by (simp add: s tw th n_def [symmetric])
qed

lemma fold_put_resolution:
  "valid_block b \<Longrightarrow> nat (counter b) + length xs \<le> 200 \<Longrightarrow>
     valid_block (fold put_resolution xs b) \<and>
     counter (fold put_resolution xs b) = counter b + int (length xs) \<and>
     resolutions (fold put_resolution xs b) = resolutions b @ xs"
proof (induction xs arbitrary: b)
  case Nil
  then show ?case by simp
next
  case (Cons p xs)
  from Cons.prems have lt: "counter b < 200" by simp
  note step = put_resolution_valid [OF Cons.prems(1) lt, of p]
  have "nat (counter (put_resolution p b)) + length xs \<le> 200"
    using Cons.prems step(2) by (simp add: valid_block_def)
  from Cons.IH [OF step(1) this] step show ?case by simp
qed

lemma publish_valid:
  assumes "valid_block b"
  shows "valid_block (publish policy list b) \<and>
     (\<exists>k. resolutions (publish policy list b) = resolutions b @ take k list)"
proof -
  define room where "room = 200 - nat (counter b)"
  show ?thesis
  proof (cases "length list \<le> room")
    case True
    then have "nat (counter b) + length list \<le> 200"
      using assms unfolding room_def valid_block_def by linarith
    from fold_put_resolution [OF assms this] True
    have "valid_block (publish policy list b)"
      and "resolutions (publish policy list b) = resolutions b @ take (length list) list"
      by (simp_all add: publish_def room_def)
    then show ?thesis by blast
  next
    case False
    show ?thesis
    proof (cases policy)
      case Reject
      with False have "publish policy list b = b" by (simp add: publish_def room_def)
      moreover have "resolutions b = resolutions b @ take 0 list" by simp
      ultimately show ?thesis using assms by metis
    next
      case Truncate
      have "length (take room list) \<le> room" by simp
      then have "nat (counter b) + length (take room list) \<le> 200"
        using assms unfolding room_def valid_block_def by linarith
      from fold_put_resolution [OF assms this] False Truncate
      have "valid_block (publish policy list b)"
        and "resolutions (publish policy list b) = resolutions b @ take room list"
        by (simp_all add: publish_def room_def)
      then show ?thesis by blast
    qed
  qed
qed

lemma fold_publish_valid:
  "valid_block b \<Longrightarrow> valid_block (fold (publish policy) calls b)"
  by (induction calls arbitrary: b) (simp_all add: publish_valid)

lemma zero_block_valid: "valid_block zero_block"
  by (simp add: valid_block_def zero_block_def)

lemma resolutions_zero_block: "resolutions zero_block = []"
  by (simp add: resolutions_def zero_block_def)

text \<open>
  Claim C8. The published set is bounded by the capacity of 200. After any sequence of
  \<^verbatim>\<open>publish\<close> calls on the block, under either policy, both arrays still have their 200
  slots, the counter lies between 0 and 200, and the block holds as many pairs as the
  counter says, at most 200. Each call leaves the pairs already there in place and in
  order, and appends a prefix of its list.
\<close>

theorem publish_capacity:
  "valid_block (fold (publish policy) calls zero_block) \<and>
   counter (fold (publish policy) calls zero_block) \<le> 200 \<and>
   length (resolutions (fold (publish policy) calls zero_block)) =
     nat (counter (fold (publish policy) calls zero_block)) \<and>
   length (resolutions (fold (publish policy) calls zero_block)) \<le> 200 \<and>
   (valid_block b \<longrightarrow>
      valid_block (publish policy list b) \<and>
      (\<exists>k. resolutions (publish policy list b) = resolutions b @ take k list))"
proof -
  define c where "c = fold (publish policy) calls zero_block"
  have v: "valid_block c"
    unfolding c_def by (rule fold_publish_valid) (rule zero_block_valid)
  then have le: "counter c \<le> 200" and lens: "length (w c) = 200" "length (h c) = 200"
    and ge: "0 \<le> counter c"
    by (simp_all add: valid_block_def)
  have "nat (counter c) \<le> 200" using le by linarith
  then have len: "length (resolutions c) = nat (counter c)"
    using lens by (simp add: resolutions_def)
  have "length (resolutions c) \<le> 200" using len le by linarith
  with v le len publish_valid [of b policy list] show ?thesis
    unfolding c_def by blast
qed

text \<open>
  Two resolutions published into the empty block, one call each: the block is valid
  before and after, and holds the two pairs in order.
\<close>

theorem publish_capacity_witness:
  "valid_block zero_block \<and>
   valid_block (publish Truncate [(1920, 1080), (1280, 720)] zero_block) \<and>
   resolutions (publish Truncate [(1920, 1080), (1280, 720)] zero_block) =
     [(1920, 1080), (1280, 720)] \<and>
   counter (fold (publish Truncate) [[(1920, 1080)], [(1280, 720)]] zero_block) \<le> 200"
proof -
  have v: "valid_block zero_block" by (rule zero_block_valid)
  have "nat (counter zero_block) + length [(1920, 1080), (1280, 720) :: int \<times> int] \<le> 200"
    by (simp add: zero_block_def)
  from fold_put_resolution [OF v this]
  have r: "resolutions (publish Truncate [(1920, 1080), (1280, 720)] zero_block) =
     [(1920, 1080), (1280, 720)]"
    by (simp add: publish_def resolutions_zero_block) (simp add: zero_block_def)
  from publish_capacity [of Truncate "[[(1920, 1080)], [(1280, 720)]]" zero_block
      "[(1920, 1080), (1280, 720)]"] v r
  show ?thesis by simp
qed

end
